theory Spec2Isabelle
  imports Main
begin

section \<open>The cache of \<^verbatim>\<open>cache.go\<close>: data model\<close>

text \<open>
  Go strings are \<open>string\<close>. A \<^verbatim>\<open>time.Time\<close> is the clock reading in nanoseconds and a
  \<^verbatim>\<open>time.Duration\<close> a number of nanoseconds, both \<open>int\<close>: \<^verbatim>\<open>Add\<close> is addition and
  \<^verbatim>\<open>After\<close> is \<open>>\<close> (the range of \<^verbatim>\<open>time.Time\<close> is not reached by a clock reading plus an
  \<^verbatim>\<open>int64\<close> duration). \<^verbatim>\<open>capacity\<close> is only ever compared, so it is an \<open>int\<close> as well.
\<close>

record CacheItem =
  Value :: string
  ExpiryTime :: int

text \<open>The Go field \<^verbatim>\<open>entry.value\<close> is \<open>val\<close> here.\<close>

record entry =
  key :: string
  val :: CacheItem

text \<open>
  A \<^verbatim>\<open>*list.Element\<close> of \<^verbatim>\<open>container/list\<close>: the address of the node and the \<^verbatim>\<open>*entry\<close>
  stored in its \<^verbatim>\<open>Value\<close> field (\<open>payload\<close>). The code never reassigns \<^verbatim>\<open>Value\<close> nor
  writes through the \<^verbatim>\<open>*entry\<close>, so a pointer to a node is the node's address together with
  its contents.
\<close>

record Element =
  addr :: nat
  payload :: entry

text \<open>
  The \<^verbatim>\<open>Cache\<close> struct. \<open>eviction\<close> lists the nodes of the doubly-linked list from front to
  back. \<open>fresh\<close> is the next unused node address: it stands for the allocator behind
  \<^verbatim>\<open>PushFront\<close>. The mutex \<^verbatim>\<open>mu\<close> is part of the interleaving model further down.
\<close>

record Cache =
  items :: "string \<rightharpoonup> Element"
  eviction :: "Element list"
  capacity :: int
  fresh :: nat

datatype error = KeyNotFound

text \<open>The field paths \<^verbatim>\<open>elem.Value.(*entry).key\<close>, \<^verbatim>\<open>.value.ExpiryTime\<close> and
  \<^verbatim>\<open>.value.Value\<close>.\<close>

definition key_of :: "Element \<Rightarrow> string" where
  "key_of e = key (payload e)"

definition expiry_of :: "Element \<Rightarrow> int" where
  "expiry_of e = ExpiryTime (val (payload e))"

definition value_of :: "Element \<Rightarrow> string" where
  "value_of e = Value (val (payload e))"

subsection \<open>The operations of \<^verbatim>\<open>container/list\<close> that the cache uses\<close>

text \<open>\<^verbatim>\<open>l.Remove(e)\<close> unlinks the node \<open>e\<close> when it belongs to \<open>l\<close> and does nothing otherwise.\<close>

definition Remove :: "Element \<Rightarrow> Element list \<Rightarrow> Element list" where
  "Remove e l = filter (\<lambda>x. addr x \<noteq> addr e) l"

text \<open>\<^verbatim>\<open>l.MoveToFront(e)\<close> does nothing when \<open>e\<close> is not a node of \<open>l\<close>.\<close>

definition MoveToFront :: "Element \<Rightarrow> Element list \<Rightarrow> Element list" where
  "MoveToFront e l = (if list_ex (\<lambda>x. addr x = addr e) l then e # Remove e l else l)"

text \<open>\<^verbatim>\<open>l.Back()\<close> is \<^verbatim>\<open>nil\<close> on the empty list.\<close>

definition Back :: "Element list \<Rightarrow> Element option" where
  "Back l = (if l = [] then None else Some (last l))"

definition Len :: "Element list \<Rightarrow> int" where
  "Len l = int (length l)"

section \<open>The operations of the cache\<close>

definition New :: "int \<Rightarrow> Cache" where
  "New cap = \<lparr>items = Map.empty, eviction = [], capacity = cap, fresh = 0\<rparr>"

text \<open>The two statements \<^verbatim>\<open>c.eviction.Remove(elem); delete(c.items, key)\<close>.\<close>

definition unlink :: "Element \<Rightarrow> string \<Rightarrow> Cache \<Rightarrow> Cache" where
  "unlink elem k c = c\<lparr>eviction := Remove elem (eviction c), items := (items c)(k := None)\<rparr>"

definition evictLRU :: "Cache \<Rightarrow> Cache" where
  "evictLRU c =
     (case Back (eviction c) of
        None \<Rightarrow> c
      | Some elem \<Rightarrow> unlink elem (key_of elem) c)"

text \<open>The three phases of \<^verbatim>\<open>Set\<close>, in the order of the source.\<close>

definition Set_remove_old :: "string \<Rightarrow> Cache \<Rightarrow> Cache" where
  "Set_remove_old k c = (case items c k of Some elem \<Rightarrow> unlink elem k c | None \<Rightarrow> c)"

definition Set_evict :: "Cache \<Rightarrow> Cache" where
  "Set_evict c = (if Len (eviction c) \<ge> capacity c then evictLRU c else c)"

definition Set_insert :: "string \<Rightarrow> string \<Rightarrow> int \<Rightarrow> int \<Rightarrow> Cache \<Rightarrow> Cache" where
  "Set_insert k v ttl now c =
     (let item = \<lparr>Value = v, ExpiryTime = now + ttl\<rparr>;
          elem = \<lparr>addr = fresh c, payload = \<lparr>key = k, val = item\<rparr>\<rparr>
      in c\<lparr>eviction := elem # eviction c, fresh := Suc (fresh c),
           items := (items c)(k \<mapsto> elem)\<rparr>)"

text \<open>\<^verbatim>\<open>Set\<close> returns the \<^verbatim>\<open>error\<close> (always \<^verbatim>\<open>nil\<close>) and the new state; \<open>now\<close> is what
  \<^verbatim>\<open>time.Now()\<close> returns.\<close>

definition Set :: "string \<Rightarrow> string \<Rightarrow> int \<Rightarrow> int \<Rightarrow> Cache \<Rightarrow> error option \<times> Cache" where
  "Set k v ttl now c = (None, Set_insert k v ttl now (Set_evict (Set_remove_old k c)))"

text \<open>\<^verbatim>\<open>Get\<close> returns the string, the \<^verbatim>\<open>error\<close> and the new state.\<close>

definition Get :: "string \<Rightarrow> int \<Rightarrow> Cache \<Rightarrow> string \<times> error option \<times> Cache" where
  "Get k now c =
     (case items c k of
        None \<Rightarrow> ('''', Some KeyNotFound, c)
      | Some elem \<Rightarrow>
          if now > expiry_of elem
          then ('''', Some KeyNotFound, unlink elem k c)
          else (value_of elem, None, c\<lparr>eviction := MoveToFront elem (eviction c)\<rparr>))"

definition Contains :: "string \<Rightarrow> int \<Rightarrow> Cache \<Rightarrow> bool \<times> Cache" where
  "Contains k now c = (case Get k now c of (_, err, c') \<Rightarrow> (err = None, c'))"

text \<open>\<^verbatim>\<open>Flush\<close> is two assignments, \<^verbatim>\<open>c.items = make(...)\<close> and then
  \<^verbatim>\<open>c.eviction = list.New()\<close>.\<close>

definition Flush_items :: "Cache \<Rightarrow> Cache" where
  "Flush_items c = c\<lparr>items := Map.empty\<rparr>"

definition Flush_eviction :: "Cache \<Rightarrow> Cache" where
  "Flush_eviction c = c\<lparr>eviction := []\<rparr>"

definition Flush :: "Cache \<Rightarrow> error option \<times> Cache" where
  "Flush c = (None, Flush_eviction (Flush_items c))"

text \<open>
  \<^verbatim>\<open>evictExpiredItems\<close> ranges over the map. Go fixes no iteration order, so the order \<open>ks\<close>
  in which the keys are produced is a parameter; a key deleted before it is reached is not
  produced, which is the \<open>None\<close> branch.
\<close>

definition sweep_step :: "int \<Rightarrow> string \<Rightarrow> Cache \<Rightarrow> Cache" where
  "sweep_step now k c =
     (case items c k of
        None \<Rightarrow> c
      | Some elem \<Rightarrow> if now > expiry_of elem then unlink elem k c else c)"

definition evictExpiredItems :: "int \<Rightarrow> string list \<Rightarrow> Cache \<Rightarrow> Cache" where
  "evictExpiredItems now ks c = fold (sweep_step now) ks c"

section \<open>Sequences of calls\<close>

text \<open>A call of the public interface, or one pass of the background sweep; each call is
  paired with the clock reading it sees.\<close>

datatype call =
    CallSet string string int
  | CallGet string
  | CallContains string
  | CallFlush
  | CallSweep "string list"

fun apply_call :: "int \<Rightarrow> call \<Rightarrow> Cache \<Rightarrow> Cache" where
  "apply_call now (CallSet k v ttl) c = snd (Set k v ttl now c)"
| "apply_call now (CallGet k) c = snd (snd (Get k now c))"
| "apply_call now (CallContains k) c = snd (Contains k now c)"
| "apply_call now CallFlush c = snd (Flush c)"
| "apply_call now (CallSweep ks) c = evictExpiredItems now ks c"

fun run :: "(int \<times> call) list \<Rightarrow> Cache \<Rightarrow> Cache" where
  "run [] c = c"
| "run ((now, x) # xs) c = run xs (apply_call now x c)"

text \<open>The calls of a test that stores the entries \<open>(key, value, ttl, now)\<close> in order, and of
  one that reads the keys \<open>(key, now)\<close> in order.\<close>

definition set_calls :: "(string \<times> string \<times> int \<times> int) list \<Rightarrow> (int \<times> call) list" where
  "set_calls ins = map (\<lambda>(k, v, ttl, now). (now, CallSet k v ttl)) ins"

definition get_calls :: "(string \<times> int) list \<Rightarrow> (int \<times> call) list" where
  "get_calls gets = map (\<lambda>(k, now). (now, CallGet k)) gets"

section \<open>The consistency of index and recency order\<close>

text \<open>
  Every key of the map refers to a node of the list that stores that key; every node of the
  list is the one its key refers to; no node occurs twice; the map has as many keys as the
  list has nodes. The last conjunct belongs to the allocator: the addresses in use are below
  \<open>fresh\<close>.
\<close>

definition consistent :: "Cache \<Rightarrow> bool" where
  "consistent c \<longleftrightarrow>
     (\<forall>k\<in>dom (items c). \<exists>e\<in>set (eviction c). items c k = Some e \<and> key_of e = k) \<and>
     (\<forall>e\<in>set (eviction c). items c (key_of e) = Some e) \<and>
     distinct (map addr (eviction c)) \<and>
     card (dom (items c)) = length (eviction c) \<and>
     (\<forall>e\<in>set (eviction c). addr e < fresh c)"

text \<open>The index that a recency list determines.\<close>

definition index_of :: "Element list \<Rightarrow> string \<rightharpoonup> Element" where
  "index_of l = map_of (map (\<lambda>e. (key_of e, e)) l)"

text \<open>\<^verbatim>\<open>Contains\<close> in the words of its description: the outcome of the lookup without the
  value, with the promotion of a valid entry and the removal of an expired one.\<close>

definition Contains_spec :: "string \<Rightarrow> int \<Rightarrow> Cache \<Rightarrow> bool \<times> Cache" where
  "Contains_spec k now c =
     (case items c k of
        None \<Rightarrow> (False, c)
      | Some e \<Rightarrow>
          if now > expiry_of e
          then (False, c\<lparr>eviction := Remove e (eviction c), items := (items c)(k := None)\<rparr>)
          else (True, c\<lparr>eviction := MoveToFront e (eviction c)\<rparr>))"

section \<open>Interleaving of calls\<close>

text \<open>
  A call is a list of steps: taking \<^verbatim>\<open>c.mu\<close>, releasing it (the deferred \<^verbatim>\<open>Unlock\<close>), or a
  piece of code run without interruption. \<^verbatim>\<open>Set\<close>, \<^verbatim>\<open>Get\<close> (hence \<^verbatim>\<open>Contains\<close>) and
  \<^verbatim>\<open>evictExpiredItems\<close> lock first and unlock last; \<^verbatim>\<open>Flush\<close> has its two assignments
  and no locking. Running a locked body as one step leaves out interleavings, it adds none.
\<close>

datatype instr = Lock | Unlock | Do "Cache \<Rightarrow> Cache"

definition Set_prog :: "string \<Rightarrow> string \<Rightarrow> int \<Rightarrow> int \<Rightarrow> instr list" where
  "Set_prog k v ttl now = [Lock, Do (\<lambda>c. snd (Set k v ttl now c)), Unlock]"

definition Get_prog :: "string \<Rightarrow> int \<Rightarrow> instr list" where
  "Get_prog k now = [Lock, Do (\<lambda>c. snd (snd (Get k now c))), Unlock]"

definition Contains_prog :: "string \<Rightarrow> int \<Rightarrow> instr list" where
  "Contains_prog k now = Get_prog k now"

definition evictExpiredItems_prog :: "int \<Rightarrow> string list \<Rightarrow> instr list" where
  "evictExpiredItems_prog now ks = [Lock, Do (evictExpiredItems now ks), Unlock]"

definition Flush_prog :: "instr list" where
  "Flush_prog = [Do Flush_items, Do Flush_eviction]"

text \<open>The shared cache, the holder of the mutex, and what each goroutine has left to do.\<close>

record sys =
  cache :: Cache
  mu :: "nat option"
  threads :: "instr list list"

text \<open>One step of goroutine \<open>t\<close>; \<open>None\<close> when it has finished or waits for the mutex.\<close>

definition step :: "nat \<Rightarrow> sys \<Rightarrow> sys option" where
  "step t s =
     (if t \<ge> length (threads s) then None
      else case threads s ! t of
        [] \<Rightarrow> None
      | Lock # p \<Rightarrow>
          (if mu s = None then Some (s\<lparr>mu := Some t, threads := (threads s)[t := p]\<rparr>) else None)
      | Unlock # p \<Rightarrow> Some (s\<lparr>mu := None, threads := (threads s)[t := p]\<rparr>)
      | Do f # p \<Rightarrow> Some (s\<lparr>cache := f (cache s), threads := (threads s)[t := p]\<rparr>))"

fun exec :: "nat list \<Rightarrow> sys \<Rightarrow> sys option" where
  "exec [] s = Some s"
| "exec (t # ts) s = (case step t s of None \<Rightarrow> None | Some s' \<Rightarrow> exec ts s')"

text \<open>Three goroutines on a cache of capacity one that holds the key \<open>a\<close>: a \<^verbatim>\<open>Flush\<close>, a
  \<^verbatim>\<open>Set\<close> of the key \<open>b\<close> and a \<^verbatim>\<open>Get\<close> of the key \<open>a\<close>.\<close>

definition race_sys :: sys where
  "race_sys =
     \<lparr>cache = snd (Set ''a'' ''1'' 100 0 (New 1)), mu = None,
      threads = [Flush_prog, Set_prog ''b'' ''2'' 100 1, Get_prog ''a'' 2]\<rparr>"

section \<open>Basic facts\<close>

lemmas cache_eval = Set_def Set_insert_def Set_evict_def Set_remove_old_def New_def Len_def
  Let_def Get_def unlink_def evictLRU_def Back_def Remove_def MoveToFront_def key_of_def
  expiry_of_def value_of_def

subsection \<open>The index and the recency list of a consistent cache\<close>

lemma index_of_Some: "distinct (map key_of l) \<Longrightarrow> index_of l k = Some e \<longleftrightarrow> e \<in> set l \<and> key_of e = k"
  unfolding index_of_def by (auto simp: map_of_eq_Some_iff comp_def)

lemma dom_index_of: "dom (index_of l) = key_of ` set l"
  unfolding index_of_def by (simp add: dom_map_of_conv_image_fst image_image)

lemma consistent_iff:
  "consistent c \<longleftrightarrow> items c = index_of (eviction c) \<and> distinct (map key_of (eviction c)) \<and>
     distinct (map addr (eviction c)) \<and> (\<forall>e\<in>set (eviction c). addr e < fresh c)"
  (is "?L \<longleftrightarrow> ?R")
proof
  assume L: ?L
  have dk: "distinct (map key_of (eviction c))"
  proof -
    have "inj_on key_of (set (eviction c))"
    proof (rule inj_onI)
      fix x y assume "x \<in> set (eviction c)" "y \<in> set (eviction c)" "key_of x = key_of y"
      with L have "Some x = Some y" unfolding consistent_def by metis
      then show "x = y" by simp
    qed
    moreover have "distinct (eviction c)" using L unfolding consistent_def by (auto simp: distinct_map)
    ultimately show ?thesis by (simp add: distinct_map)
  qed
  have "items c k = index_of (eviction c) k" for k
  proof (cases "items c k")
    case None
    then have "k \<notin> key_of ` set (eviction c)" using L unfolding consistent_def by force
    then show ?thesis using None dom_index_of[of "eviction c"] by (metis domIff)
  next
    case (Some e)
    then have "e \<in> set (eviction c) \<and> key_of e = k" using L unfolding consistent_def by force
    then show ?thesis using Some index_of_Some[OF dk, of k e] by auto
  qed
  then have "items c = index_of (eviction c)" by (rule ext)
  with L dk show ?R unfolding consistent_def by simp
next
  assume R: ?R
  then have dk: "distinct (map key_of (eviction c))" by simp
  have "card (dom (items c)) = length (eviction c)"
    using R dom_index_of[of "eviction c"] distinct_card[OF dk] by simp
  then show ?L using R index_of_Some[OF dk] unfolding consistent_def by (auto simp: dom_def)
qed

lemma index_of_None: "index_of l k = None \<longleftrightarrow> (\<forall>e\<in>set l. key_of e \<noteq> k)"
  unfolding index_of_def by (induction l) auto

lemma index_of_filter_key:
  "index_of (filter (\<lambda>x. key_of x \<noteq> k) l) = (index_of l)(k := None)"
  unfolding index_of_def by (induction l) (auto simp: fun_eq_iff)

lemma Remove_eq_filter_key:
  assumes "distinct (map addr l)" "distinct (map key_of l)" "e \<in> set l"
  shows "Remove e l = filter (\<lambda>x. key_of x \<noteq> key_of e) l"
proof -
  have "addr x \<noteq> addr e \<longleftrightarrow> key_of x \<noteq> key_of e" if "x \<in> set l" for x
    using assms that by (metis distinct_map inj_onD)
  then show ?thesis unfolding Remove_def by (auto intro: filter_cong)
qed

lemma consistent_lookup:
  "consistent c \<Longrightarrow> items c k = Some e \<longleftrightarrow> e \<in> set (eviction c) \<and> key_of e = k"
  by (simp add: consistent_iff index_of_Some)

lemma unlink_eviction:
  assumes "consistent c" "items c k = Some e"
  shows "eviction (unlink e k c) = filter (\<lambda>x. key_of x \<noteq> k) (eviction c)"
  using assms Remove_eq_filter_key[of "eviction c" e]
  by (auto simp: unlink_def consistent_iff index_of_Some)

lemma unlink_consistent:
  assumes "consistent c" "items c k = Some e"
  shows "consistent (unlink e k c)"
proof -
  have ev: "eviction (unlink e k c) = filter (\<lambda>x. key_of x \<noteq> k) (eviction c)"
    by (rule unlink_eviction[OF assms])
  have it: "items (unlink e k c) = (items c)(k := None)" by (simp add: unlink_def)
  have fr: "fresh (unlink e k c) = fresh c" by (simp add: unlink_def)
  show ?thesis
    using assms(1) unfolding consistent_iff ev it fr
    by (simp add: index_of_filter_key distinct_map_filter)
qed

lemma filter_key_last:
  assumes "distinct (map key_of l)" "l \<noteq> []"
  shows "filter (\<lambda>x. key_of x \<noteq> key_of (last l)) l = butlast l"
proof -
  obtain xs x where l: "l = xs @ [x]" using assms(2) by (metis append_butlast_last_id)
  then have "key_of x \<notin> key_of ` set xs" using assms(1) by simp
  then have "\<forall>y\<in>set xs. key_of y \<noteq> key_of x" by (metis imageI)
  then show ?thesis using l by simp
qed

lemma evictLRU_Nil: "eviction c = [] \<Longrightarrow> evictLRU c = c"
  by (simp add: evictLRU_def Back_def)

lemma evictLRU_eviction:
  assumes "consistent c"
  shows "eviction (evictLRU c) = butlast (eviction c)"
proof (cases "eviction c = []")
  case True
  then show ?thesis by (simp add: evictLRU_Nil)
next
  case False
  then have "items c (key_of (last (eviction c))) = Some (last (eviction c))"
    using assms by (simp add: consistent_lookup)
  then show ?thesis
    using False assms unlink_eviction[OF assms, of "key_of (last (eviction c))" "last (eviction c)"]
    by (simp add: evictLRU_def Back_def filter_key_last consistent_iff)
qed

lemma evictLRU_consistent:
  assumes "consistent c"
  shows "consistent (evictLRU c)"
proof (cases "eviction c = []")
  case True
  then show ?thesis using assms by (simp add: evictLRU_Nil)
next
  case False
  then have "items c (key_of (last (eviction c))) = Some (last (eviction c))"
    using assms by (simp add: consistent_lookup)
  then show ?thesis
    using False unlink_consistent[OF assms] by (simp add: evictLRU_def Back_def)
qed

lemma Set_remove_old_consistent: "consistent c \<Longrightarrow> consistent (Set_remove_old k c)"
  by (simp add: Set_remove_old_def unlink_consistent split: option.splits)

lemma Set_remove_old_eviction:
  "consistent c \<Longrightarrow> eviction (Set_remove_old k c) = filter (\<lambda>x. key_of x \<noteq> k) (eviction c)"
proof (cases "items c k")
  case None
  assume c: "consistent c"
  then have "\<forall>e\<in>set (eviction c). key_of e \<noteq> k"
    using None index_of_None[of "eviction c" k] by (simp add: consistent_iff)
  then have "filter (\<lambda>x. key_of x \<noteq> k) (eviction c) = eviction c"
    by simp
  then show ?thesis using None by (simp add: Set_remove_old_def)
next
  case (Some e)
  assume "consistent c"
  then show ?thesis using Some by (simp add: Set_remove_old_def unlink_eviction)
qed

lemma Set_remove_old_items: "items (Set_remove_old k c) k = None"
  by (simp add: Set_remove_old_def unlink_def split: option.splits)

lemma Set_evict_consistent: "consistent c \<Longrightarrow> consistent (Set_evict c)"
  by (simp add: Set_evict_def evictLRU_consistent)

lemma Set_insert_consistent:
  assumes "consistent c" "items c k = None"
  shows "consistent (Set_insert k v ttl now c)"
proof -
  have "\<forall>e\<in>set (eviction c). key_of e \<noteq> k"
    using assms index_of_None[of "eviction c" k] by (simp add: consistent_iff)
  then show ?thesis
    using assms(1) unfolding consistent_iff
    by (force simp: Set_insert_def Let_def index_of_def less_Suc_eq key_of_def)
qed

subsection \<open>Each operation keeps the cache consistent\<close>

lemma New_consistent: "consistent (New cap)"
  by (simp add: consistent_def New_def)

lemma Set_consistent: "consistent c \<Longrightarrow> consistent (snd (Set k v ttl now c))"
proof -
  assume c: "consistent c"
  have "items (Set_evict (Set_remove_old k c)) k = None"
    using Set_remove_old_items[of k c]
    by (auto simp: Set_evict_def evictLRU_def unlink_def split: option.splits)
  then show ?thesis
    using c by (simp add: Set_def Set_insert_consistent Set_evict_consistent Set_remove_old_consistent)
qed

lemma MoveToFront_member:
  assumes "distinct (map addr l)" "e \<in> set l"
  shows "MoveToFront e l = e # filter (\<lambda>x. x \<noteq> e) l"
proof -
  have "addr x \<noteq> addr e \<longleftrightarrow> x \<noteq> e" if "x \<in> set l" for x
    using assms that by (metis distinct_map inj_onD)
  then have "Remove e l = filter (\<lambda>x. x \<noteq> e) l"
    unfolding Remove_def by (auto intro: filter_cong)
  moreover have "list_ex (\<lambda>x. addr x = addr e) l" using assms(2) by (auto simp: list_ex_iff)
  ultimately show ?thesis by (simp add: MoveToFront_def)
qed

lemma promote_consistent:
  assumes "consistent c" "items c k = Some e"
  shows "consistent (c\<lparr>eviction := MoveToFront e (eviction c)\<rparr>)"
proof -
  have e: "e \<in> set (eviction c)" "key_of e = k" using assms by (simp_all add: consistent_lookup)
  have da: "distinct (map addr (eviction c))" using assms(1) by (simp add: consistent_def)
  have m: "MoveToFront e (eviction c) = e # filter (\<lambda>x. x \<noteq> e) (eviction c)"
    by (rule MoveToFront_member[OF da e(1)])
  have s: "set (MoveToFront e (eviction c)) = set (eviction c)" using e(1) by (auto simp: m)
  have inj: "inj_on addr (set (eviction c))" using da by (simp add: distinct_map)
  have ne: "addr x \<noteq> addr e" if "x \<in> set (eviction c)" "x \<noteq> e" for x
    using inj e(1) that by (metis inj_onD)
  have "addr e \<notin> addr ` set (filter (\<lambda>x. x \<noteq> e) (eviction c))"
    using ne by force
  then have d: "distinct (map addr (MoveToFront e (eviction c)))"
    using da by (simp add: m distinct_map_filter)
  have l: "length (MoveToFront e (eviction c)) = length (eviction c)"
  proof -
    have "distinct (eviction c)" using da by (simp add: distinct_map)
    moreover have "distinct (MoveToFront e (eviction c))" using d by (simp add: distinct_map)
    ultimately show ?thesis using s by (metis distinct_card)
  qed
  show ?thesis using assms(1) unfolding consistent_def by (simp add: s d l)
qed

lemma Get_consistent: "consistent c \<Longrightarrow> consistent (snd (snd (Get k now c)))"
  by (auto simp: Get_def unlink_consistent promote_consistent split: option.splits)

lemma Contains_eq_Get: "snd (Contains k now c) = snd (snd (Get k now c))"
  by (simp add: Contains_def split: prod.splits)

lemma Flush_consistent: "consistent (snd (Flush c))"
  by (simp add: Flush_def Flush_items_def Flush_eviction_def consistent_def)

lemma sweep_step_consistent: "consistent c \<Longrightarrow> consistent (sweep_step now k c)"
  by (simp add: sweep_step_def unlink_consistent split: option.splits)

lemma evictExpiredItems_consistent: "consistent c \<Longrightarrow> consistent (evictExpiredItems now ks c)"
  unfolding evictExpiredItems_def by (induction ks arbitrary: c) (simp_all add: sweep_step_consistent)

lemma apply_call_consistent: "consistent c \<Longrightarrow> consistent (apply_call now x c)"
  by (cases x) (simp_all add: Set_consistent Get_consistent Contains_eq_Get Flush_consistent
      evictExpiredItems_consistent)

lemma run_consistent: "consistent c \<Longrightarrow> consistent (run xs c)"
  by (induction xs arbitrary: c) (auto simp: apply_call_consistent)

subsection \<open>The sweep, key by key\<close>

lemma consistent_distinct_keys: "consistent c \<Longrightarrow> distinct (map key_of (eviction c))"
  by (simp add: consistent_iff)

lemma consistent_key_unique:
  assumes "consistent c" "x \<in> set (eviction c)" "y \<in> set (eviction c)" "key_of x = key_of y"
  shows "x = y"
  using assms consistent_lookup[of c "key_of x" x] consistent_lookup[of c "key_of x" y] by simp

lemma sweep_step_eviction:
  assumes "consistent c"
  shows "eviction (sweep_step now k c) =
         filter (\<lambda>e. \<not> (key_of e = k \<and> now > expiry_of e)) (eviction c)"
proof (cases "items c k")
  case None
  then have "\<forall>e\<in>set (eviction c). key_of e \<noteq> k"
    using assms index_of_None[of "eviction c" k] by (simp add: consistent_iff)
  then have "filter (\<lambda>e. \<not> (key_of e = k \<and> now > expiry_of e)) (eviction c) = eviction c"
    by simp
  then show ?thesis using None by (simp add: sweep_step_def)
next
  case (Some e)
  then have e: "e \<in> set (eviction c)" "key_of e = k"
    using assms by (simp_all add: consistent_lookup)
  have only: "x = e" if "x \<in> set (eviction c)" "key_of x = k" for x
    using consistent_key_unique[OF assms that(1) e(1)] that(2) e(2) by simp
  show ?thesis
  proof (cases "now > expiry_of e")
    case True
    have "filter (\<lambda>x. key_of x \<noteq> k) (eviction c) =
          filter (\<lambda>x. \<not> (key_of x = k \<and> now > expiry_of x)) (eviction c)"
      using only True by (intro filter_cong) auto
    then show ?thesis using Some True unlink_eviction[OF assms Some] by (simp add: sweep_step_def)
  next
    case False
    have "filter (\<lambda>x. \<not> (key_of x = k \<and> now > expiry_of x)) (eviction c) = eviction c"
      using only False by (intro filter_True) auto
    then show ?thesis using Some False by (simp add: sweep_step_def)
  qed
qed

lemma fold_sweep_eviction:
  "consistent c \<Longrightarrow>
   eviction (fold (sweep_step now) ks c) =
     filter (\<lambda>e. \<not> (key_of e \<in> set ks \<and> now > expiry_of e)) (eviction c)"
proof (induction ks arbitrary: c)
  case Nil
  then show ?case by simp
next
  case (Cons k ks)
  have "eviction (fold (sweep_step now) ks (sweep_step now k c)) =
        filter (\<lambda>e. \<not> (key_of e \<in> set ks \<and> now > expiry_of e)) (eviction (sweep_step now k c))"
    using Cons.IH[OF sweep_step_consistent[OF Cons.prems]] .
  then show ?case
    by (auto simp: sweep_step_eviction[OF Cons.prems] intro: filter_cong)
qed

lemma index_of_filter:
  assumes "distinct (map key_of l)"
  shows "index_of (filter P l) k =
         (case index_of l k of None \<Rightarrow> None | Some e \<Rightarrow> if P e then Some e else None)"
proof (cases "index_of l k")
  case None
  then have "\<forall>e\<in>set (filter P l). key_of e \<noteq> k" by (simp add: index_of_None)
  then have "index_of (filter P l) k = None" by (simp only: index_of_None)
  then show ?thesis using None by simp
next
  case (Some e)
  have df: "distinct (map key_of (filter P l))" using assms by (simp add: distinct_map_filter)
  have e: "e \<in> set l" "key_of e = k" using Some index_of_Some[OF assms] by simp_all
  show ?thesis
  proof (cases "P e")
    case True
    then have "index_of (filter P l) k = Some e" using e index_of_Some[OF df] by simp
    then show ?thesis using Some True by simp
  next
    case False
    have "x \<noteq> e" if "x \<in> set (filter P l)" for x using that False by auto
    moreover have "x = e" if "x \<in> set l" "key_of x = k" for x
      using that e assms index_of_Some[OF assms, of k x] Some by simp
    ultimately have "\<forall>x\<in>set (filter P l). key_of x \<noteq> k" by auto
    then have "index_of (filter P l) k = None" by (simp only: index_of_None)
    then show ?thesis using Some False by simp
  qed
qed

subsection \<open>Lengths and capacity\<close>

lemma length_Remove_le: "length (Remove e l) \<le> length l"
  by (simp add: Remove_def)

lemma length_Remove_less: "x \<in> set l \<Longrightarrow> addr x = addr e \<Longrightarrow> length (Remove e l) < length l"
  unfolding Remove_def by (rule length_filter_less[of x]) simp_all

lemma length_MoveToFront_le: "length (MoveToFront e l) \<le> length l"
proof (cases "list_ex (\<lambda>x. addr x = addr e) l")
  case True
  then obtain x where "x \<in> set l" "addr x = addr e" by (auto simp: list_ex_iff)
  then have "length (Remove e l) < length l" by (rule length_Remove_less)
  then show ?thesis using True by (simp add: MoveToFront_def)
next
  case False
  then show ?thesis by (simp add: MoveToFront_def)
qed

lemma unlink_length_le: "length (eviction (unlink e k c)) \<le> length (eviction c)"
  by (simp add: unlink_def length_Remove_le)

lemma unlink_capacity: "capacity (unlink e k c) = capacity c"
  by (simp add: unlink_def)

lemma evictLRU_capacity: "capacity (evictLRU c) = capacity c"
  by (simp add: evictLRU_def unlink_capacity split: option.splits)

lemma evictLRU_length_le: "length (eviction (evictLRU c)) \<le> length (eviction c)"
  by (simp add: evictLRU_def unlink_length_le split: option.splits)

lemma evictLRU_length_less:
  "eviction c \<noteq> [] \<Longrightarrow> length (eviction (evictLRU c)) < length (eviction c)"
  by (simp add: evictLRU_def Back_def unlink_def length_Remove_less[of "last (eviction c)"])

lemma Set_remove_old_capacity: "capacity (Set_remove_old k c) = capacity c"
  by (simp add: Set_remove_old_def unlink_capacity split: option.splits)

lemma Set_remove_old_length_le: "length (eviction (Set_remove_old k c)) \<le> length (eviction c)"
  by (simp add: Set_remove_old_def unlink_length_le split: option.splits)

lemma Set_evict_capacity: "capacity (Set_evict c) = capacity c"
  by (simp add: Set_evict_def evictLRU_capacity)

lemma Set_evict_below:
  assumes "1 \<le> capacity c" "Len (eviction c) \<le> capacity c"
  shows "Len (eviction (Set_evict c)) < capacity c"
proof (cases "Len (eviction c) \<ge> capacity c")
  case True
  then have "eviction c \<noteq> []" using assms(1) by (auto simp: Len_def)
  then have "length (eviction (evictLRU c)) < length (eviction c)" by (rule evictLRU_length_less)
  then show ?thesis using True assms(2) by (simp add: Set_evict_def Len_def)
next
  case False
  then show ?thesis by (simp add: Set_evict_def)
qed

lemma Set_insert_capacity: "capacity (Set_insert k v ttl now c) = capacity c"
  by (simp add: Set_insert_def Let_def)

lemma Set_insert_length: "length (eviction (Set_insert k v ttl now c)) = Suc (length (eviction c))"
  by (simp add: Set_insert_def Let_def)

lemma Set_capacity: "capacity (snd (Set k v ttl now c)) = capacity c"
  by (simp add: Set_def Set_insert_capacity Set_evict_capacity Set_remove_old_capacity)

lemma Set_within_capacity:
  assumes "1 \<le> capacity c" "Len (eviction c) \<le> capacity c"
  shows "Len (eviction (snd (Set k v ttl now c))) \<le> capacity c"
proof -
  let ?c1 = "Set_remove_old k c"
  have "Len (eviction ?c1) \<le> capacity ?c1"
    using assms(2) Set_remove_old_length_le[of k c] by (simp add: Len_def Set_remove_old_capacity)
  moreover have "1 \<le> capacity ?c1" using assms(1) by (simp add: Set_remove_old_capacity)
  ultimately have "Len (eviction (Set_evict ?c1)) < capacity ?c1" by (rule Set_evict_below[rotated])
  then show ?thesis
    by (simp add: Set_def Set_insert_length Len_def Set_remove_old_capacity)
qed

lemma Get_capacity: "capacity (snd (snd (Get k now c))) = capacity c"
  by (simp add: Get_def unlink_capacity split: option.splits)

lemma Get_length_le: "length (eviction (snd (snd (Get k now c)))) \<le> length (eviction c)"
  by (simp add: Get_def unlink_length_le length_MoveToFront_le split: option.splits)

lemma Flush_capacity: "capacity (snd (Flush c)) = capacity c"
  by (simp add: Flush_def Flush_items_def Flush_eviction_def)

lemma Flush_eviction_Nil: "eviction (snd (Flush c)) = []"
  by (simp add: Flush_def Flush_items_def Flush_eviction_def)

lemma sweep_step_capacity: "capacity (sweep_step now k c) = capacity c"
  by (simp add: sweep_step_def unlink_capacity split: option.splits)

lemma sweep_step_length_le: "length (eviction (sweep_step now k c)) \<le> length (eviction c)"
  by (simp add: sweep_step_def unlink_length_le split: option.splits)

lemma evictExpiredItems_capacity: "capacity (evictExpiredItems now ks c) = capacity c"
  unfolding evictExpiredItems_def by (induction ks arbitrary: c) (simp_all add: sweep_step_capacity)

lemma evictExpiredItems_length_le:
  "length (eviction (evictExpiredItems now ks c)) \<le> length (eviction c)"
  unfolding evictExpiredItems_def
proof (induction ks arbitrary: c)
  case Nil
  then show ?case by simp
next
  case (Cons k ks)
  have "length (eviction (fold (sweep_step now) ks (sweep_step now k c)))
        \<le> length (eviction (sweep_step now k c))" by (rule Cons.IH)
  also have "\<dots> \<le> length (eviction c)" by (rule sweep_step_length_le)
  finally show ?case by simp
qed

lemma apply_call_capacity: "capacity (apply_call now x c) = capacity c"
  by (cases x) (simp_all add: Set_capacity Get_capacity Contains_eq_Get Flush_capacity
      evictExpiredItems_capacity)

lemma run_capacity: "capacity (run xs c) = capacity c"
  by (induction xs c rule: run.induct) (simp_all add: apply_call_capacity)

lemma apply_call_within_capacity:
  assumes "1 \<le> capacity c" "Len (eviction c) \<le> capacity c"
  shows "Len (eviction (apply_call now x c)) \<le> capacity c"
proof (cases x)
  case (CallSet k v ttl)
  then show ?thesis using Set_within_capacity[OF assms] by simp
next
  case (CallGet k)
  then show ?thesis using assms(2) Get_length_le[of k now c] by (simp add: Len_def)
next
  case (CallContains k)
  then show ?thesis using assms(2) Get_length_le[of k now c] by (simp add: Len_def Contains_eq_Get)
next
  case CallFlush
  then show ?thesis using assms(1) by (simp add: Flush_eviction_Nil Len_def)
next
  case (CallSweep ks)
  then show ?thesis using assms(2) evictExpiredItems_length_le[of now ks c] by (simp add: Len_def)
qed

lemma run_within_capacity:
  "1 \<le> capacity c \<Longrightarrow> Len (eviction c) \<le> capacity c \<Longrightarrow> Len (eviction (run xs c)) \<le> capacity c"
proof (induction xs c rule: run.induct)
  case (1 c)
  then show ?case by simp
next
  case (2 now x xs c)
  have "Len (eviction (run xs (apply_call now x c))) \<le> capacity (apply_call now x c)"
    using 2 apply_call_within_capacity[of c now x] by (simp add: apply_call_capacity)
  then show ?case by (simp add: apply_call_capacity)
qed

subsection \<open>Caches of capacity at most zero, and removal of one node\<close>

lemma unlink_fresh: "fresh (unlink e k c) = fresh c"
  by (simp add: unlink_def)

lemma Set_evict_remove_fresh: "fresh (Set_evict (Set_remove_old k c)) = fresh c"
  by (simp add: Set_evict_def evictLRU_def Set_remove_old_def unlink_fresh split: option.splits)

lemma consistent_Nil_items: "consistent c \<Longrightarrow> eviction c = [] \<Longrightarrow> items c = Map.empty"
  by (simp add: consistent_iff index_of_def)

lemma Set_evict_degenerate:
  assumes "capacity c \<le> 0" "length (eviction c) \<le> 1"
  shows "Set_evict c = evictLRU c \<and> eviction (Set_evict c) = []"
proof -
  have t: "Set_evict c = evictLRU c" using assms(1) by (simp add: Set_evict_def Len_def)
  have "eviction (evictLRU c) = []"
  proof (cases "eviction c")
    case Nil
    then show ?thesis by (simp add: evictLRU_Nil)
  next
    case (Cons x xs)
    then have "eviction c = [x]" using assms(2) by simp
    then show ?thesis by (simp add: evictLRU_def Back_def unlink_def Remove_def)
  qed
  then show ?thesis using t by simp
qed

lemma Set_degenerate:
  assumes "consistent c" "capacity c \<le> 0" "length (eviction c) \<le> 1"
  shows "eviction (snd (Set k v ttl now c)) =
           [\<lparr>addr = fresh c, payload = \<lparr>key = k, val = \<lparr>Value = v, ExpiryTime = now + ttl\<rparr>\<rparr>\<rparr>] \<and>
         dom (items (snd (Set k v ttl now c))) = {k}"
proof -
  let ?c2 = "Set_evict (Set_remove_old k c)"
  have l1: "length (eviction (Set_remove_old k c)) \<le> 1"
    using assms(3) Set_remove_old_length_le[of k c] by simp
  have c1: "capacity (Set_remove_old k c) \<le> 0"
    using assms(2) by (simp add: Set_remove_old_capacity)
  have ev: "eviction ?c2 = []"
    using Set_evict_degenerate[OF c1 l1] by blast
  have "consistent ?c2"
    using assms(1) by (simp add: Set_evict_consistent Set_remove_old_consistent)
  then have it: "items ?c2 = Map.empty" using ev by (rule consistent_Nil_items)
  show ?thesis
    by (simp add: Set_def Set_insert_def Let_def ev it Set_evict_remove_fresh)
qed

lemma apply_call_degenerate:
  assumes "consistent c" "capacity c \<le> 0" "length (eviction c) \<le> 1"
  shows "length (eviction (apply_call now x c)) \<le> 1"
proof (cases x)
  case (CallSet k v ttl)
  then show ?thesis using Set_degenerate[OF assms] by simp
next
  case (CallGet k)
  then show ?thesis using assms(3) Get_length_le[of k now c] by simp
next
  case (CallContains k)
  then show ?thesis using assms(3) Get_length_le[of k now c] by (simp add: Contains_eq_Get)
next
  case CallFlush
  then show ?thesis by (simp add: Flush_eviction_Nil)
next
  case (CallSweep ks)
  then show ?thesis using assms(3) evictExpiredItems_length_le[of now ks c] by simp
qed

lemma run_degenerate:
  "consistent c \<Longrightarrow> capacity c \<le> 0 \<Longrightarrow> length (eviction c) \<le> 1 \<Longrightarrow>
   length (eviction (run xs c)) \<le> 1"
proof (induction xs c rule: run.induct)
  case (1 c)
  then show ?case by simp
next
  case (2 now x xs c)
  then show ?case
    using apply_call_degenerate[of c now x] apply_call_consistent[of c now x]
    by (simp add: apply_call_capacity)
qed

lemma Remove_member:
  assumes "distinct (map addr l)" "e \<in> set l"
  shows "Remove e l = filter (\<lambda>x. x \<noteq> e) l"
proof -
  have "addr x \<noteq> addr e \<longleftrightarrow> x \<noteq> e" if "x \<in> set l" for x
    using assms that by (metis distinct_map inj_onD)
  then show ?thesis unfolding Remove_def by (auto intro: filter_cong)
qed

lemma length_filter_neq:
  "distinct l \<Longrightarrow> e \<in> set l \<Longrightarrow> length (filter (\<lambda>x. x \<noteq> e) l) = length l - 1"
proof (induction l)
  case Nil
  then show ?case by simp
next
  case (Cons a l)
  show ?case
  proof (cases "a = e")
    case True
    then have "filter (\<lambda>x. x \<noteq> e) l = l" using Cons.prems by (intro filter_True) auto
    then show ?thesis using True by simp
  next
    case False
    then have "e \<in> set l" using Cons.prems by simp
    moreover from this have "length l > 0" by (cases l) auto
    ultimately show ?thesis using Cons False by simp
  qed
qed

lemma length_filter_key_less:
  "e \<in> set l \<Longrightarrow> key_of e = k \<Longrightarrow> length (filter (\<lambda>x. key_of x \<noteq> k) l) < length l"
  by (rule length_filter_less[of e]) simp_all

subsection \<open>New keys below capacity, valid reads, eviction of the back\<close>

lemma Set_fresh_key:
  assumes "items c k = None" "Len (eviction c) < capacity c"
  shows "snd (Set k v ttl now c) = Set_insert k v ttl now c"
  using assms by (simp add: Set_def Set_remove_old_def Set_evict_def)

lemma dom_consistent: "consistent c \<Longrightarrow> dom (items c) = key_of ` set (eviction c)"
  by (simp add: consistent_iff dom_index_of)

lemma run_set_calls_fresh:
  assumes "consistent c" "distinct (map fst ins)" "\<forall>k\<in>set (map fst ins). items c k = None"
    "Len (eviction c) + int (length ins) \<le> capacity c"
  shows "consistent (run (set_calls ins) c) \<and>
         capacity (run (set_calls ins) c) = capacity c \<and>
         map key_of (eviction (run (set_calls ins) c)) = rev (map fst ins) @ map key_of (eviction c) \<and>
         (\<forall>k. k \<notin> set (map fst ins) \<longrightarrow> items (run (set_calls ins) c) k = items c k) \<and>
         (\<forall>x\<in>set ins. \<exists>e. items (run (set_calls ins) c) (fst x) = Some e \<and>
            value_of e = fst (snd x) \<and> expiry_of e = snd (snd (snd x)) + fst (snd (snd x)))"
  using assms
proof (induction ins arbitrary: c)
  case Nil
  then show ?case by (simp add: set_calls_def)
next
  case (Cons x xs)
  obtain k v ttl t where x: "x = (k, v, ttl, t)" by (cases x) auto
  let ?c1 = "Set_insert k v ttl t c"
  have none: "items c k = None" using Cons.prems(3) x by simp
  have below: "Len (eviction c) < capacity c" using Cons.prems(4) by simp
  have s: "snd (Set k v ttl t c) = ?c1" by (rule Set_fresh_key[OF none below])
  have r: "run (set_calls (x # xs)) c = run (set_calls xs) ?c1"
    by (simp add: set_calls_def x s)
  have c1: "consistent ?c1" by (rule Set_insert_consistent[OF Cons.prems(1) none])
  have d: "distinct (map fst xs)" "k \<notin> set (map fst xs)" using Cons.prems(2) x by simp_all
  have it1: "items ?c1 k' = items c k'" if "k' \<noteq> k" for k'
    using that by (simp add: Set_insert_def Let_def)
  have n1: "\<forall>k'\<in>set (map fst xs). items ?c1 k' = None"
  proof
    fix k' assume k': "k' \<in> set (map fst xs)"
    then have "k' \<noteq> k" using d(2) by auto
    moreover have "items c k' = None" using Cons.prems(3) k' by auto
    ultimately show "items ?c1 k' = None" using it1 by simp
  qed
  have l1: "Len (eviction ?c1) + int (length xs) \<le> capacity ?c1"
    using Cons.prems(4) by (simp add: Set_insert_def Let_def Len_def)
  note IH = Cons.IH[OF c1 d(1) n1 l1]
  have kx: "items ?c1 k = Some \<lparr>addr = fresh c, payload = \<lparr>key = k, val = \<lparr>Value = v, ExpiryTime = t + ttl\<rparr>\<rparr>\<rparr>"
    by (simp add: Set_insert_def Let_def)
  have e1: "map key_of (eviction ?c1) = k # map key_of (eviction c)"
    by (simp add: Set_insert_def Let_def key_of_def)
  have A: "consistent (run (set_calls xs) ?c1)" using IH by blast
  have B: "capacity (run (set_calls xs) ?c1) = capacity c"
    using IH by (simp add: Set_insert_capacity)
  have C: "map key_of (eviction (run (set_calls xs) ?c1)) =
           rev (map fst (x # xs)) @ map key_of (eviction c)"
    using IH by (simp add: e1 x)
  have D: "items (run (set_calls xs) ?c1) k' = items c k'" if "k' \<notin> set (map fst (x # xs))" for k'
  proof -
    have "k' \<notin> set (map fst xs)" "k' \<noteq> k" using that x by auto
    then show ?thesis using IH it1 by simp
  qed
  have E: "\<exists>e. items (run (set_calls xs) ?c1) (fst y) = Some e \<and>
            value_of e = fst (snd y) \<and> expiry_of e = snd (snd (snd y)) + fst (snd (snd y))"
    if "y \<in> set (x # xs)" for y
  proof (cases "y = x")
    case True
    have "items (run (set_calls xs) ?c1) k = items ?c1 k" using IH d(2) by blast
    then show ?thesis using True x kx by (simp add: value_of_def expiry_of_def)
  next
    case False
    then have "y \<in> set xs" using that by simp
    then show ?thesis using IH by blast
  qed
  show ?case unfolding r using A B C D E by blast
qed

lemma last_filter_neq:
  assumes "l \<noteq> []" "e \<noteq> last l"
  shows "filter (\<lambda>x. x \<noteq> e) l \<noteq> [] \<and> last (filter (\<lambda>x. x \<noteq> e) l) = last l"
proof -
  obtain xs x where l: "l = xs @ [x]" using assms(1) by (metis append_butlast_last_id)
  then show ?thesis using assms(2) by simp
qed

lemma Get_valid_hit:
  assumes "consistent c" "eviction c \<noteq> []" "k \<noteq> key_of (last (eviction c))"
    "\<forall>e\<in>set (eviction c). t \<le> expiry_of e"
  shows "consistent (snd (snd (Get k t c))) \<and>
         items (snd (snd (Get k t c))) = items c \<and>
         eviction (snd (snd (Get k t c))) \<noteq> [] \<and>
         last (eviction (snd (snd (Get k t c)))) = last (eviction c) \<and>
         set (eviction (snd (snd (Get k t c)))) = set (eviction c) \<and>
         capacity (snd (snd (Get k t c))) = capacity c"
proof (cases "items c k")
  case None
  then show ?thesis using assms by (simp add: Get_def)
next
  case (Some e)
  then have e: "e \<in> set (eviction c)" "key_of e = k"
    using assms(1) by (simp_all add: consistent_lookup)
  then have valid: "\<not> t > expiry_of e" using assms(4) by auto
  have ne: "e \<noteq> last (eviction c)" using e(2) assms(3) by auto
  have da: "distinct (map addr (eviction c))" using assms(1) by (simp add: consistent_def)
  have m: "MoveToFront e (eviction c) = e # filter (\<lambda>x. x \<noteq> e) (eviction c)"
    by (rule MoveToFront_member[OF da e(1)])
  have g: "snd (snd (Get k t c)) = c\<lparr>eviction := MoveToFront e (eviction c)\<rparr>"
    using Some valid by (simp add: Get_def)
  have s: "set (MoveToFront e (eviction c)) = set (eviction c)" using e(1) by (auto simp: m)
  show ?thesis
    unfolding g using promote_consistent[OF assms(1) Some] last_filter_neq[OF assms(2) ne] s
    by (simp add: m)
qed

lemma run_get_calls_valid:
  assumes "consistent c" "eviction c \<noteq> []"
    "\<forall>g\<in>set gets. fst g \<noteq> key_of (last (eviction c)) \<and> (\<forall>e\<in>set (eviction c). snd g \<le> expiry_of e)"
  shows "consistent (run (get_calls gets) c) \<and>
         items (run (get_calls gets) c) = items c \<and>
         eviction (run (get_calls gets) c) \<noteq> [] \<and>
         last (eviction (run (get_calls gets) c)) = last (eviction c) \<and>
         capacity (run (get_calls gets) c) = capacity c"
  using assms
proof (induction gets arbitrary: c)
  case Nil
  then show ?case by (simp add: get_calls_def)
next
  case (Cons g gets)
  obtain k t where g: "g = (k, t)" by (cases g) auto
  let ?c1 = "snd (snd (Get k t c))"
  have r: "run (get_calls (g # gets)) c = run (get_calls gets) ?c1"
    by (simp add: get_calls_def g)
  have h: "consistent ?c1 \<and> items ?c1 = items c \<and> eviction ?c1 \<noteq> [] \<and>
           last (eviction ?c1) = last (eviction c) \<and> set (eviction ?c1) = set (eviction c) \<and>
           capacity ?c1 = capacity c"
    using Get_valid_hit[of c k t] Cons.prems g by simp
  have p: "\<forall>g\<in>set gets. fst g \<noteq> key_of (last (eviction ?c1)) \<and>
             (\<forall>e\<in>set (eviction ?c1). snd g \<le> expiry_of e)"
    using Cons.prems(3) h by simp
  have "consistent (run (get_calls gets) ?c1) \<and>
         items (run (get_calls gets) ?c1) = items ?c1 \<and>
         eviction (run (get_calls gets) ?c1) \<noteq> [] \<and>
         last (eviction (run (get_calls gets) ?c1)) = last (eviction ?c1) \<and>
         capacity (run (get_calls gets) ?c1) = capacity ?c1"
    using Cons.IH[of ?c1] h p by blast
  then show ?case unfolding r using h by simp
qed

lemma Set_evicts_back:
  assumes "consistent c" "items c k = None" "eviction c \<noteq> []" "Len (eviction c) \<ge> capacity c"
  shows "items (snd (Set k v ttl now c)) =
           (items c)(key_of (last (eviction c)) := None,
              k \<mapsto> \<lparr>addr = fresh c, payload = \<lparr>key = k, val = \<lparr>Value = v, ExpiryTime = now + ttl\<rparr>\<rparr>\<rparr>) \<and>
         eviction (snd (Set k v ttl now c)) =
           \<lparr>addr = fresh c, payload = \<lparr>key = k, val = \<lparr>Value = v, ExpiryTime = now + ttl\<rparr>\<rparr>\<rparr>
           # butlast (eviction c)"
proof -
  have r: "Set_remove_old k c = c" using assms(2) by (simp add: Set_remove_old_def)
  have e: "Set_evict c = evictLRU c" using assms(4) by (simp add: Set_evict_def)
  have ev: "eviction (evictLRU c) = butlast (eviction c)" by (rule evictLRU_eviction[OF assms(1)])
  have it: "items (evictLRU c) = (items c)(key_of (last (eviction c)) := None)"
    using assms(3) by (simp add: evictLRU_def Back_def unlink_def)
  have fr: "fresh (evictLRU c) = fresh c"
    by (simp add: evictLRU_def unlink_fresh split: option.splits)
  show ?thesis by (simp add: Set_def r e Set_insert_def Let_def ev it fr)
qed

lemma example_consistent: "consistent (snd (Set ''a'' ''1'' 10 0 (New 1)))"
  by (simp add: consistent_def cache_eval)

lemma Set_items_key: "\<exists>a. items (snd (Set k v ttl now c)) k =
    Some \<lparr>addr = a, payload = \<lparr>key = k, val = \<lparr>Value = v, ExpiryTime = now + ttl\<rparr>\<rparr>\<rparr>"
  by (simp add: Set_def Set_insert_def Let_def)

section \<open>Expiry as seen by \<^verbatim>\<open>Get\<close>\<close>

text \<open>
  C4, as the code has it. An entry stored by \<^verbatim>\<open>Set(k, v, ttl)\<close> at clock reading \<open>now\<close> is
  expired for a \<^verbatim>\<open>Get\<close> exactly when the clock reading of the \<^verbatim>\<open>Get\<close> is strictly after
  \<open>now + ttl\<close>: a \<^verbatim>\<open>Get(k)\<close> at elapsed time \<open>d > ttl\<close> returns the empty string and the
  error, one at \<open>d \<le> ttl\<close> returns \<open>v\<close> and no error. With a negative \<open>ttl\<close> every later
  \<^verbatim>\<open>Get\<close> (\<open>d \<ge> 0\<close>) reports the key as not found.
\<close>

theorem Set_then_Get_ttl:
  "fst (Get k (now + d) (snd (Set k v ttl now c))) = (if d > ttl then '''' else v) \<and>
   fst (snd (Get k (now + d) (snd (Set k v ttl now c)))) =
     (if d > ttl then Some KeyNotFound else None) \<and>
   (ttl < 0 \<and> 0 \<le> d \<longrightarrow>
      fst (snd (Get k (now + d) (snd (Set k v ttl now c)))) = Some KeyNotFound)"
proof -
  obtain a where "items (snd (Set k v ttl now c)) k =
    Some \<lparr>addr = a, payload = \<lparr>key = k, val = \<lparr>Value = v, ExpiryTime = now + ttl\<rparr>\<rparr>\<rparr>"
    using Set_items_key by blast
  then show ?thesis by (simp add: Get_def expiry_of_def value_of_def)
qed

theorem Set_then_Get_ttl_witness:
  "(-5 < (0::int) \<and> (0::int) \<le> 0) \<and>
   fst (snd (Get ''k'' (7 + 0) (snd (Set ''k'' ''v'' (-5) 7 (New 1))))) = Some KeyNotFound"
  using Set_then_Get_ttl[of "''k''" 7 0 "''v''" "-5" "New 1"] by simp

text \<open>
  C4 as stated fails: one second after a \<^verbatim>\<open>Set\<close> with a \<open>ttl\<close> of one second (elapsed time
  equal to \<open>ttl\<close>) the \<^verbatim>\<open>Get\<close> does not report the key as not found, and neither does a
  \<^verbatim>\<open>Get\<close> that reads the same clock value as a \<^verbatim>\<open>Set\<close> with \<open>ttl = 0\<close>.
\<close>

theorem Get_at_expiry_instant_counterexample:
  "\<not> (fst (snd (Get ''k'' (0 + 1000000000) (snd (Set ''k'' ''v'' 1000000000 0 (New 1)))))
       = Some KeyNotFound) \<and>
   \<not> (fst (snd (Get ''k'' 0 (snd (Set ''k'' ''v'' 0 0 (New 1))))) = Some KeyNotFound)"
  by (simp add: cache_eval)

section \<open>The outcomes of \<^verbatim>\<open>Get\<close>\<close>

text \<open>
  C5, as the code has it. \<^verbatim>\<open>Get(key)\<close> returns the error if and only if the key is absent
  from the index or the clock reading is strictly after the entry's \<open>ExpiryTime\<close>; the error
  is the only outcome besides success; and in the expired case the key is deleted from the
  index and the node is unlinked from the recency list (in a consistent cache this removes
  exactly the node of that key and keeps the others in their order).
\<close>

theorem Get_NotFound_iff:
  "(fst (snd (Get k now c)) = Some KeyNotFound \<longleftrightarrow>
      (items c k = None \<or> (\<exists>e. items c k = Some e \<and> now > expiry_of e))) \<and>
   (fst (snd (Get k now c)) = None \<or> fst (snd (Get k now c)) = Some KeyNotFound) \<and>
   (\<forall>e. items c k = Some e \<and> now > expiry_of e \<longrightarrow>
      items (snd (snd (Get k now c))) = (items c)(k := None) \<and>
      (\<forall>x\<in>set (eviction (snd (snd (Get k now c)))). addr x \<noteq> addr e) \<and>
      (consistent c \<longrightarrow>
         eviction (snd (snd (Get k now c))) = filter (\<lambda>x. key_of x \<noteq> k) (eviction c)))"
proof -
  have 1: "fst (snd (Get k now c)) = Some KeyNotFound \<longleftrightarrow>
      (items c k = None \<or> (\<exists>e. items c k = Some e \<and> now > expiry_of e))"
    by (auto simp: Get_def split: option.splits)
  have 2: "fst (snd (Get k now c)) = None \<or> fst (snd (Get k now c)) = Some KeyNotFound"
    by (auto simp: Get_def split: option.splits)
  have 3: "items (snd (snd (Get k now c))) = (items c)(k := None) \<and>
      (\<forall>x\<in>set (eviction (snd (snd (Get k now c)))). addr x \<noteq> addr e) \<and>
      (consistent c \<longrightarrow>
         eviction (snd (snd (Get k now c))) = filter (\<lambda>x. key_of x \<noteq> k) (eviction c))"
    if "items c k = Some e \<and> now > expiry_of e" for e
    using that unlink_eviction[of c k e] by (auto simp: Get_def unlink_def Remove_def)
  show ?thesis using 1 2 3 by blast
qed

theorem Get_NotFound_iff_witness:
  "items (snd (Set ''k'' ''v'' 10 0 (New 1))) ''k'' =
     Some \<lparr>addr = 0, payload = \<lparr>key = ''k'', val = \<lparr>Value = ''v'', ExpiryTime = 10\<rparr>\<rparr>\<rparr> \<and>
   11 > expiry_of \<lparr>addr = 0, payload = \<lparr>key = ''k'', val = \<lparr>Value = ''v'', ExpiryTime = 10\<rparr>\<rparr>\<rparr> \<and>
   consistent (snd (Set ''k'' ''v'' 10 0 (New 1))) \<and>
   fst (snd (Get ''k'' 11 (snd (Set ''k'' ''v'' 10 0 (New 1))))) = Some KeyNotFound \<and>
   items (snd (snd (Get ''k'' 11 (snd (Set ''k'' ''v'' 10 0 (New 1)))))) ''k'' = None \<and>
   eviction (snd (snd (Get ''k'' 11 (snd (Set ''k'' ''v'' 10 0 (New 1)))))) = []"
proof -
  let ?c = "snd (Set ''k'' ''v'' 10 0 (New 1))"
  let ?e = "\<lparr>addr = 0, payload = \<lparr>key = ''k'', val = \<lparr>Value = ''v'', ExpiryTime = 10\<rparr>\<rparr>\<rparr>"
  have i: "items ?c ''k'' = Some ?e"
    by (simp add: cache_eval)
  have x: "11 > expiry_of ?e" by (simp add: expiry_of_def)
  have c: "consistent ?c"
    by (simp add: consistent_def cache_eval)
  have ev: "eviction ?c = [?e]"
    by (simp add: cache_eval)
  show ?thesis using Get_NotFound_iff[of "''k''" 11 ?c] i x c ev by (simp add: key_of_def)
qed

text \<open>
  C5 as stated fails: at the clock reading equal to the entry's \<open>ExpiryTime\<close> (so
  \<open>now \<ge> expiryTime\<close>) the key is present and \<^verbatim>\<open>Get\<close> succeeds with the value.
\<close>

theorem Get_valid_at_expiry_counterexample:
  "items (snd (Set ''k'' ''v'' 10 0 (New 1))) ''k'' \<noteq> None \<and>
   10 \<ge> expiry_of (the (items (snd (Set ''k'' ''v'' 10 0 (New 1))) ''k'')) \<and>
   fst (Get ''k'' 10 (snd (Set ''k'' ''v'' 10 0 (New 1)))) = ''v'' \<and>
   fst (snd (Get ''k'' 10 (snd (Set ''k'' ''v'' 10 0 (New 1))))) = None"
  by (simp add: cache_eval)

section \<open>\<^verbatim>\<open>Contains\<close> and \<^verbatim>\<open>Get\<close>\<close>

text \<open>
  C8. For every cache state, key and clock reading, \<^verbatim>\<open>Contains\<close> is what its description
  says (\<open>Contains_spec\<close>): it returns true exactly when \<^verbatim>\<open>Get\<close> on the same state returns
  no error, and it leaves the cache in the state \<^verbatim>\<open>Get\<close> leaves it in (the entry promoted to
  the front on a valid hit, removed on an expired hit, nothing changed on a miss).
\<close>

theorem Contains_refines_Get:
  "Contains k now c = Contains_spec k now c \<and>
   fst (Contains k now c) = (fst (snd (Get k now c)) = None) \<and>
   snd (Contains k now c) = snd (snd (Get k now c))"
  by (simp add: Contains_def Contains_spec_def Get_def unlink_def split: option.splits)

section \<open>Preservation of consistency\<close>

text \<open>
  C10. Each operation (\<^verbatim>\<open>Set\<close>, \<^verbatim>\<open>Get\<close>, \<^verbatim>\<open>Contains\<close>, \<^verbatim>\<open>Flush\<close>, \<^verbatim>\<open>evictLRU\<close>,
  \<^verbatim>\<open>evictExpiredItems\<close>), run from start to end on a cache whose index and recency list are
  consistent, leaves them consistent: every key of the map refers to a node of the list that
  stores that key, every node occurs exactly once in the list and is the one its key refers
  to, and the map has as many keys as the list has nodes.
\<close>

theorem consistency_preserved:
  assumes "consistent c"
  shows "consistent (snd (Set k v ttl now c)) \<and>
         consistent (snd (snd (Get k now c))) \<and>
         consistent (snd (Contains k now c)) \<and>
         consistent (snd (Flush c)) \<and>
         consistent (evictLRU c) \<and>
         consistent (evictExpiredItems now ks c)"
  using assms
  by (simp add: Set_consistent Get_consistent Contains_eq_Get Flush_consistent
      evictLRU_consistent evictExpiredItems_consistent)

theorem consistency_preserved_witness:
  "consistent (snd (Set ''a'' ''1'' 10 0 (New 1))) \<and>
   consistent (snd (Set ''b'' ''2'' 10 1 (snd (Set ''a'' ''1'' 10 0 (New 1))))) \<and>
   consistent (snd (snd (Get ''a'' 11 (snd (Set ''a'' ''1'' 10 0 (New 1)))))) \<and>
   consistent (evictExpiredItems 11 [''a''] (snd (Set ''a'' ''1'' 10 0 (New 1))))"
  using consistency_preserved[OF example_consistent, of "''b''" "''2''" 10 1]
    consistency_preserved[OF example_consistent, where k="''a''" and now=11 and ks="[''a'']"]
    example_consistent
  by simp

section \<open>The background sweep\<close>

text \<open>
  C7. One pass of \<^verbatim>\<open>evictExpiredItems\<close> over a consistent cache, whatever the order \<open>ks\<close> in
  which the map yields its keys, removes exactly the entries whose \<open>ExpiryTime\<close> has passed
  (\<^verbatim>\<open>now.After(ExpiryTime)\<close>): they are gone from the recency list and from the index,
  whether or not they were ever read, and every other entry stays, in its place in the list
  and under its key in the index.
\<close>

theorem sweep_removes_exactly_expired:
  assumes "consistent c" "set ks = dom (items c)"
  shows "eviction (evictExpiredItems now ks c) =
           filter (\<lambda>e. \<not> now > expiry_of e) (eviction c) \<and>
         (\<forall>k. items (evictExpiredItems now ks c) k =
           (case items c k of
              None \<Rightarrow> None
            | Some e \<Rightarrow> if now > expiry_of e then None else Some e)) \<and>
         consistent (evictExpiredItems now ks c)"
proof -
  let ?c' = "evictExpiredItems now ks c"
  have c': "consistent ?c'" by (rule evictExpiredItems_consistent[OF assms(1)])
  have ks: "key_of e \<in> set ks" if "e \<in> set (eviction c)" for e
    using that assms consistent_lookup[of c "key_of e" e] by auto
  have ev: "eviction ?c' = filter (\<lambda>e. \<not> now > expiry_of e) (eviction c)"
    unfolding evictExpiredItems_def fold_sweep_eviction[OF assms(1)]
    using ks by (intro filter_cong) auto
  have "items ?c' k = (case items c k of None \<Rightarrow> None
          | Some e \<Rightarrow> if now > expiry_of e then None else Some e)" for k
  proof -
    have "items ?c' k = index_of (filter (\<lambda>e. \<not> now > expiry_of e) (eviction c)) k"
      using c' ev by (simp add: consistent_iff)
    also have "\<dots> = (case index_of (eviction c) k of None \<Rightarrow> None
          | Some e \<Rightarrow> if \<not> now > expiry_of e then Some e else None)"
      by (rule index_of_filter[OF consistent_distinct_keys[OF assms(1)]])
    also have "index_of (eviction c) = items c" using assms(1) by (simp add: consistent_iff)
    finally show ?thesis by (simp split: option.splits)
  qed
  then show ?thesis using ev c' by simp
qed

theorem sweep_removes_exactly_expired_witness:
  "consistent (snd (Set ''b'' ''2'' 20 1 (snd (Set ''a'' ''1'' 5 0 (New 2))))) \<and>
   set [''b'', ''a''] = dom (items (snd (Set ''b'' ''2'' 20 1 (snd (Set ''a'' ''1'' 5 0 (New 2)))))) \<and>
   map key_of (eviction (evictExpiredItems 10 [''b'', ''a'']
      (snd (Set ''b'' ''2'' 20 1 (snd (Set ''a'' ''1'' 5 0 (New 2))))))) = [''b''] \<and>
   items (evictExpiredItems 10 [''b'', ''a'']
      (snd (Set ''b'' ''2'' 20 1 (snd (Set ''a'' ''1'' 5 0 (New 2)))))) ''a'' = None"
proof -
  let ?c = "snd (Set ''b'' ''2'' 20 1 (snd (Set ''a'' ''1'' 5 0 (New 2))))"
  have c: "consistent ?c"
    by (simp add: Set_consistent New_consistent)
  have d: "set [''b'', ''a''] = dom (items ?c)"
    by (simp add: cache_eval) 
  have ev: "eviction ?c =
    [\<lparr>addr = 1, payload = \<lparr>key = ''b'', val = \<lparr>Value = ''2'', ExpiryTime = 21\<rparr>\<rparr>\<rparr>,
     \<lparr>addr = 0, payload = \<lparr>key = ''a'', val = \<lparr>Value = ''1'', ExpiryTime = 5\<rparr>\<rparr>\<rparr>]"
    by (simp add: cache_eval)
  have it: "items ?c ''a'' =
    Some \<lparr>addr = 0, payload = \<lparr>key = ''a'', val = \<lparr>Value = ''1'', ExpiryTime = 5\<rparr>\<rparr>\<rparr>"
    by (simp add: cache_eval)
  show ?thesis
    using sweep_removes_exactly_expired[OF c d, of 10] c d
    by (simp add: ev it expiry_of_def key_of_def)
qed

section \<open>The capacity bound\<close>

text \<open>
  C1, as the code has it. For every capacity of at least one and every sequence of calls on
  a cache made by \<^verbatim>\<open>New(capacity)\<close> (in particular every sequence of \<^verbatim>\<open>Set\<close> calls, with any
  number of distinct keys), the recency list and the index hold at most \<open>capacity\<close> entries
  after every call, and also inside a following \<^verbatim>\<open>Set\<close>: after the old entry of the key
  is removed, after the eviction step (where the list is strictly below capacity) and after
  the insertion.
\<close>

theorem capacity_bound:
  assumes "1 \<le> cap"
  shows "Len (eviction (run xs (New cap))) \<le> cap \<and>
         int (card (dom (items (run xs (New cap))))) \<le> cap \<and>
         Len (eviction (Set_remove_old k (run xs (New cap)))) \<le> cap \<and>
         Len (eviction (Set_evict (Set_remove_old k (run xs (New cap))))) < cap \<and>
         Len (eviction (snd (Set k v ttl now (run xs (New cap))))) \<le> cap"
proof -
  let ?c = "run xs (New cap)"
  have cap: "capacity ?c = cap" by (simp add: run_capacity New_def)
  have len: "Len (eviction ?c) \<le> cap"
    using run_within_capacity[of "New cap" xs] assms by (simp add: New_def Len_def)
  have "consistent ?c" by (simp add: run_consistent New_consistent)
  then have card: "card (dom (items ?c)) = length (eviction ?c)" by (simp add: consistent_def)
  have r: "Len (eviction (Set_remove_old k ?c)) \<le> cap"
    using len Set_remove_old_length_le[of k ?c] by (simp add: Len_def)
  have e: "Len (eviction (Set_evict (Set_remove_old k ?c))) < cap"
    using Set_evict_below[of "Set_remove_old k ?c"] r assms cap
    by (simp add: Set_remove_old_capacity)
  have s: "Len (eviction (snd (Set k v ttl now ?c))) \<le> cap"
    using Set_within_capacity[of ?c k v ttl now] len assms cap by simp
  show ?thesis using len card r e s by (simp add: Len_def)
qed

theorem capacity_bound_witness:
  "(1::int) \<le> 2 \<and>
   Len (eviction (run (set_calls [(''a'', ''1'', 10, 0), (''b'', ''2'', 10, 1), (''c'', ''3'', 10, 2)])
      (New 2))) = 2 \<and>
   Len (eviction (run (set_calls [(''a'', ''1'', 10, 0), (''b'', ''2'', 10, 1), (''c'', ''3'', 10, 2)])
      (New 2))) \<le> 2"
  using capacity_bound[of 2 "set_calls [(''a'', ''1'', 10, 0), (''b'', ''2'', 10, 1), (''c'', ''3'', 10, 2)]"]
  by (simp add: set_calls_def cache_eval)

text \<open>
  C1 as stated fails for a capacity that is not positive: one \<^verbatim>\<open>Set\<close> on \<^verbatim>\<open>New(0)\<close>
  leaves one entry in the list and in the index.
\<close>

theorem capacity_zero_counterexample:
  "\<not> Len (eviction (run (set_calls [(''a'', ''1'', 10, 0)]) (New 0))) \<le> 0 \<and>
   \<not> int (card (dom (items (run (set_calls [(''a'', ''1'', 10, 0)]) (New 0))))) \<le> 0"
  by (simp add: set_calls_def cache_eval)

section \<open>A capacity that is not positive\<close>

text \<open>
  C9. On a cache made by \<^verbatim>\<open>New(capacity)\<close> with \<open>capacity \<le> 0\<close>, after any sequence of calls,
  every \<^verbatim>\<open>Set\<close> returns (the model has no failing branch: \<^verbatim>\<open>Back()\<close> is tested for
  \<^verbatim>\<open>nil\<close> before it is used) with a \<^verbatim>\<open>nil\<close> error; its eviction step always takes the
  \<^verbatim>\<open>evictLRU\<close> path, which leaves the recency list empty (the resident entry, if there is
  one, is evicted before the insertion); afterwards the cache holds the new entry and
  nothing else, and is consistent. \<^verbatim>\<open>evictLRU\<close> on an empty recency list changes nothing.
\<close>

theorem degenerate_capacity:
  assumes "cap \<le> 0"
  shows "fst (Set k v ttl now (run xs (New cap))) = None \<and>
         Set_evict (Set_remove_old k (run xs (New cap))) =
           evictLRU (Set_remove_old k (run xs (New cap))) \<and>
         eviction (Set_evict (Set_remove_old k (run xs (New cap)))) = [] \<and>
         eviction (snd (Set k v ttl now (run xs (New cap)))) =
           [\<lparr>addr = fresh (run xs (New cap)),
             payload = \<lparr>key = k, val = \<lparr>Value = v, ExpiryTime = now + ttl\<rparr>\<rparr>\<rparr>] \<and>
         dom (items (snd (Set k v ttl now (run xs (New cap))))) = {k} \<and>
         consistent (snd (Set k v ttl now (run xs (New cap)))) \<and>
         (\<forall>c. eviction c = [] \<longrightarrow> evictLRU c = c)"
proof -
  let ?c = "run xs (New cap)"
  have c: "consistent ?c" by (simp add: run_consistent New_consistent)
  have cap: "capacity ?c \<le> 0" using assms by (simp add: run_capacity New_def)
  have len: "length (eviction ?c) \<le> 1"
    using run_degenerate[of "New cap" xs] assms by (simp add: New_consistent) (simp add: New_def)
  have r: "length (eviction (Set_remove_old k ?c)) \<le> 1"
    using len Set_remove_old_length_le[of k ?c] by simp
  have cap1: "capacity (Set_remove_old k ?c) \<le> 0"
    using cap by (simp add: Set_remove_old_capacity)
  have e: "Set_evict (Set_remove_old k ?c) = evictLRU (Set_remove_old k ?c) \<and>
           eviction (Set_evict (Set_remove_old k ?c)) = []"
    by (rule Set_evict_degenerate[OF cap1 r])
  have f1: "fst (Set k v ttl now ?c) = None" by (simp add: Set_def)
  have f2: "\<forall>c. eviction c = [] \<longrightarrow> evictLRU c = c" by (simp add: evictLRU_Nil)
  show ?thesis
    using f1 e Set_degenerate[OF c cap len, of k v ttl now] Set_consistent[OF c, of k v ttl now] f2
    by blast
qed

theorem degenerate_capacity_witness:
  "(0::int) \<le> 0 \<and>
   fst (Set ''b'' ''2'' 10 1 (run (set_calls [(''a'', ''1'', 10, 0)]) (New 0))) = None \<and>
   map key_of (eviction (run (set_calls [(''a'', ''1'', 10, 0)]) (New 0))) = [''a''] \<and>
   map key_of (eviction (snd (Set ''b'' ''2'' 10 1 (run (set_calls [(''a'', ''1'', 10, 0)]) (New 0)))))
     = [''b''] \<and>
   evictLRU (New 0) = New 0"
proof -
  have "eviction (New 0) = []" by (simp add: New_def)
  then show ?thesis
    using degenerate_capacity[of 0 "''b''" "''2''" 10 1 "set_calls [(''a'', ''1'', 10, 0)]"]
    by (simp add: set_calls_def cache_eval)
qed

section \<open>Overwriting a key of a full cache\<close>

text \<open>
  C6. In a consistent cache that holds key \<open>k\<close> and is at (or below) its capacity,
  \<^verbatim>\<open>Set(k, v2, ttl)\<close> removes the old entry of \<open>k\<close> and puts the new one at the front: the
  index is unchanged at every other key, the other nodes of the recency list stay in their
  order, the number of entries is the same, and a following \<^verbatim>\<open>Get(k)\<close> that is not after
  the new expiry time returns \<open>v2\<close>.
\<close>

theorem overwrite_at_capacity:
  assumes "consistent c" "items c k = Some e" "Len (eviction c) \<le> capacity c"
  shows "(\<forall>k'. k' \<noteq> k \<longrightarrow> items (snd (Set k v2 ttl now c)) k' = items c k') \<and>
         eviction (snd (Set k v2 ttl now c)) =
           \<lparr>addr = fresh c, payload = \<lparr>key = k, val = \<lparr>Value = v2, ExpiryTime = now + ttl\<rparr>\<rparr>\<rparr>
           # filter (\<lambda>x. key_of x \<noteq> k) (eviction c) \<and>
         length (eviction (snd (Set k v2 ttl now c))) = length (eviction c) \<and>
         (\<forall>d. d \<le> ttl \<longrightarrow>
            fst (Get k (now + d) (snd (Set k v2 ttl now c))) = v2 \<and>
            fst (snd (Get k (now + d) (snd (Set k v2 ttl now c)))) = None)"
proof -
  let ?c1 = "Set_remove_old k c"
  have e: "e \<in> set (eviction c)" "key_of e = k"
    using assms(1,2) by (simp_all add: consistent_lookup)
  have c1: "?c1 = unlink e k c" using assms(2) by (simp add: Set_remove_old_def)
  have ev1: "eviction ?c1 = filter (\<lambda>x. key_of x \<noteq> k) (eviction c)"
    by (rule Set_remove_old_eviction[OF assms(1)])
  have less: "length (eviction ?c1) < length (eviction c)"
    unfolding ev1 using e by (rule length_filter_key_less)
  then have noev: "Set_evict ?c1 = ?c1"
    using assms(3) by (simp add: Set_evict_def Len_def Set_remove_old_capacity)
  have one: "length (filter (\<lambda>x. key_of x \<noteq> k) (eviction c)) = length (eviction c) - 1"
  proof -
    have "filter (\<lambda>x. key_of x \<noteq> k) (eviction c) = Remove e (eviction c)"
      using Remove_eq_filter_key[of "eviction c" e] assms(1) e by (simp add: consistent_iff)
    also have "\<dots> = filter (\<lambda>x. x \<noteq> e) (eviction c)"
      using Remove_member[of "eviction c" e] assms(1) e by (simp add: consistent_def)
    also have "length \<dots> = length (eviction c) - 1"
      using length_filter_neq[of "eviction c" e] assms(1) e
      by (simp add: consistent_def distinct_map)
    finally show ?thesis .
  qed
  have ev: "eviction (snd (Set k v2 ttl now c)) =
           \<lparr>addr = fresh c, payload = \<lparr>key = k, val = \<lparr>Value = v2, ExpiryTime = now + ttl\<rparr>\<rparr>\<rparr>
           # filter (\<lambda>x. key_of x \<noteq> k) (eviction c)"
    by (simp add: Set_def noev Set_insert_def Let_def ev1) (simp add: c1 unlink_fresh)
  have it: "items (snd (Set k v2 ttl now c)) k' = items c k'" if "k' \<noteq> k" for k'
    using that by (simp add: Set_def noev Set_insert_def Let_def) (simp add: c1 unlink_def)
  have len: "length (eviction (snd (Set k v2 ttl now c))) = length (eviction c)"
    using one less by (simp add: ev)
  have get: "fst (Get k (now + d) (snd (Set k v2 ttl now c))) = v2 \<and>
            fst (snd (Get k (now + d) (snd (Set k v2 ttl now c)))) = None" if "d \<le> ttl" for d
  proof -
    obtain a where "items (snd (Set k v2 ttl now c)) k =
      Some \<lparr>addr = a, payload = \<lparr>key = k, val = \<lparr>Value = v2, ExpiryTime = now + ttl\<rparr>\<rparr>\<rparr>"
      using Set_items_key by blast
    then show ?thesis using that by (simp add: Get_def expiry_of_def value_of_def)
  qed
  show ?thesis using ev it len get by blast
qed

theorem overwrite_at_capacity_witness:
  "consistent (snd (Set ''b'' ''2'' 10 1 (snd (Set ''a'' ''1'' 10 0 (New 2))))) \<and>
   items (snd (Set ''b'' ''2'' 10 1 (snd (Set ''a'' ''1'' 10 0 (New 2))))) ''a'' =
     Some \<lparr>addr = 0, payload = \<lparr>key = ''a'', val = \<lparr>Value = ''1'', ExpiryTime = 10\<rparr>\<rparr>\<rparr> \<and>
   Len (eviction (snd (Set ''b'' ''2'' 10 1 (snd (Set ''a'' ''1'' 10 0 (New 2)))))) =
     capacity (snd (Set ''b'' ''2'' 10 1 (snd (Set ''a'' ''1'' 10 0 (New 2))))) \<and>
   map key_of (eviction (snd (Set ''a'' ''9'' 10 2
     (snd (Set ''b'' ''2'' 10 1 (snd (Set ''a'' ''1'' 10 0 (New 2)))))))) = [''a'', ''b''] \<and>
   items (snd (Set ''a'' ''9'' 10 2
     (snd (Set ''b'' ''2'' 10 1 (snd (Set ''a'' ''1'' 10 0 (New 2))))))) ''b'' =
     Some \<lparr>addr = 1, payload = \<lparr>key = ''b'', val = \<lparr>Value = ''2'', ExpiryTime = 11\<rparr>\<rparr>\<rparr> \<and>
   fst (Get ''a'' (2 + 3) (snd (Set ''a'' ''9'' 10 2
     (snd (Set ''b'' ''2'' 10 1 (snd (Set ''a'' ''1'' 10 0 (New 2)))))))) = ''9''"
proof -
  let ?c = "snd (Set ''b'' ''2'' 10 1 (snd (Set ''a'' ''1'' 10 0 (New 2))))"
  let ?e = "\<lparr>addr = 0, payload = \<lparr>key = ''a'', val = \<lparr>Value = ''1'', ExpiryTime = 10\<rparr>\<rparr>\<rparr>"
  have c: "consistent ?c" by (simp add: Set_consistent New_consistent)
  have i: "items ?c ''a'' = Some ?e" by (simp add: cache_eval)
  have l: "Len (eviction ?c) \<le> capacity ?c" by (simp add: cache_eval)
  have l': "Len (eviction ?c) = capacity ?c" by (simp add: cache_eval)
  have ev: "eviction ?c =
    [\<lparr>addr = 1, payload = \<lparr>key = ''b'', val = \<lparr>Value = ''2'', ExpiryTime = 11\<rparr>\<rparr>\<rparr>, ?e]"
    by (simp add: cache_eval)
  have b: "items ?c ''b'' =
    Some \<lparr>addr = 1, payload = \<lparr>key = ''b'', val = \<lparr>Value = ''2'', ExpiryTime = 11\<rparr>\<rparr>\<rparr>"
    by (simp add: cache_eval)
  note t = overwrite_at_capacity[OF c i l, of "''9''" 10 2]
  have t1: "items (snd (Set ''a'' ''9'' 10 2 ?c)) ''b'' = items ?c ''b''"
    using t[THEN conjunct1, rule_format, of "''b''"] by simp
  have t2: "map key_of (eviction (snd (Set ''a'' ''9'' 10 2 ?c))) = [''a'', ''b'']"
    using t[THEN conjunct2, THEN conjunct1] by (simp add: ev key_of_def)
  have t3: "fst (Get ''a'' (2 + 3) (snd (Set ''a'' ''9'' 10 2 ?c))) = ''9''"
    using t[THEN conjunct2, THEN conjunct2, THEN conjunct2, rule_format, of 3] by simp
  show ?thesis using c i l' t1 t2 t3 by (simp only: b simp_thms)
qed

section \<open>Which entry the capacity eviction removes\<close>

text \<open>
  C2. Take a cache whose capacity is the number of entries \<open>ins\<close>, store them in order
  under distinct keys, then read keys other than the first stored one, in any order and any
  number of times, at clock readings at which no entry has expired; the cache then holds all
  the keys. A further \<^verbatim>\<open>Set\<close> of a new key evicts the first stored key, the one never read
  again, and no other: the keys are then the new one and all the others, each with the
  value and expiry time it was stored with. In general \<^verbatim>\<open>evictLRU\<close> on a consistent cache
  with a non-empty recency list removes exactly one entry, the back of the list, from the
  list and from the index; the expiry times play no part.
\<close>

theorem lru_evicts_the_unread_key:
  assumes "ins = oldest # rest"
    and "distinct (map fst ins)"
    and "knew \<notin> set (map fst ins)"
    and "set (map fst gets) \<subseteq> set (map fst rest)"
    and "\<forall>(k, v, ttl, t)\<in>set ins. \<forall>(k', t')\<in>set gets. t' \<le> t + ttl"
    and "c2 = run (get_calls gets) (run (set_calls ins) (New (int (length ins))))"
    and "c3 = snd (Set knew v' ttl' now c2)"
  shows "dom (items c2) = set (map fst ins) \<and>
         dom (items c3) = insert knew (set (map fst rest)) \<and>
         items c3 (fst oldest) = None \<and>
         (\<forall>(k, v, ttl, t)\<in>set rest.
            \<exists>e. items c3 k = Some e \<and> value_of e = v \<and> expiry_of e = t + ttl) \<and>
         (\<forall>c. consistent c \<and> eviction c \<noteq> [] \<longrightarrow>
            eviction (evictLRU c) = butlast (eviction c) \<and>
            items (evictLRU c) = (items c)(key_of (last (eviction c)) := None) \<and>
            length (eviction (evictLRU c)) = length (eviction c) - 1)"
proof -
  let ?C = "int (length ins)"
  let ?c1 = "run (set_calls ins) (New ?C)"
  have pre: "consistent (New ?C)" "\<forall>k\<in>set (map fst ins). items (New ?C) k = None"
    "Len (eviction (New ?C)) + int (length ins) \<le> capacity (New ?C)"
    by (simp_all add: New_consistent) (simp_all add: New_def Len_def)
  note A = run_set_calls_fresh[OF pre(1) assms(2) pre(2) pre(3)]
  have c1: "consistent ?c1" using A by blast
  have cap1: "capacity ?c1 = ?C" using A by (simp add: New_def)
  have keys1: "map key_of (eviction ?c1) = rev (map fst ins)" using A by (simp add: New_def)
  have vals1: "\<exists>e. items ?c1 (fst x) = Some e \<and> value_of e = fst (snd x) \<and>
      expiry_of e = snd (snd (snd x)) + fst (snd (snd x))" if "x \<in> set ins" for x
    using A that by blast
  have ne1: "eviction ?c1 \<noteq> []" using keys1 assms(1) by auto
  have "last (map key_of (eviction ?c1)) = fst oldest" using keys1 assms(1) by simp
  then have last1: "key_of (last (eviction ?c1)) = fst oldest" using ne1 by (simp add: last_map)
  have old: "fst oldest \<notin> set (map fst rest)" using assms(1,2) by simp
  have exp1: "snd g \<le> expiry_of e" if "e \<in> set (eviction ?c1)" "g \<in> set gets" for e g
  proof -
    have "key_of e \<in> set (map key_of (eviction ?c1))" using that(1) by simp
    then have "key_of e \<in> set (map fst ins)" using keys1 by simp
    then obtain x where x: "x \<in> set ins" "fst x = key_of e" by auto
    obtain e' where e': "items ?c1 (fst x) = Some e'"
      "expiry_of e' = snd (snd (snd x)) + fst (snd (snd x))" using vals1[OF x(1)] by blast
    have "items ?c1 (key_of e) = Some e" using c1 that(1) by (simp add: consistent_lookup)
    then have "e' = e" using e'(1) x(2) by simp
    moreover have "snd g \<le> snd (snd (snd x)) + fst (snd (snd x))"
      using assms(5) x(1) that(2) by (auto simp: split_beta)
    ultimately show ?thesis using e'(2) by simp
  qed
  have gets: "\<forall>g\<in>set gets. fst g \<noteq> key_of (last (eviction ?c1)) \<and>
      (\<forall>e\<in>set (eviction ?c1). snd g \<le> expiry_of e)"
  proof
    fix g assume g: "g \<in> set gets"
    then have "fst g \<in> set (map fst rest)" using assms(4) by auto
    then have "fst g \<noteq> fst oldest" using old by metis
    then show "fst g \<noteq> key_of (last (eviction ?c1)) \<and>
      (\<forall>e\<in>set (eviction ?c1). snd g \<le> expiry_of e)" using last1 exp1 g by simp
  qed
  note B = run_get_calls_valid[OF c1 ne1 gets]
  have c2: "consistent c2" using B assms(6) by simp
  have it2: "items c2 = items ?c1" using B assms(6) by simp
  have ne2: "eviction c2 \<noteq> []" using B assms(6) by simp
  have last2: "key_of (last (eviction c2)) = fst oldest" using B assms(6) last1 by simp
  have cap2: "capacity c2 = ?C" using B assms(6) cap1 by simp
  have "dom (items ?c1) = set (map key_of (eviction ?c1))"
    using dom_consistent[OF c1] by simp
  then have dom1: "dom (items ?c1) = set (map fst ins)" using keys1 by simp
  then have dom2: "dom (items c2) = set (map fst ins)" using it2 by simp
  have "length (eviction c2) = card (dom (items c2))" using c2 by (simp add: consistent_def)
  also have "\<dots> = length ins" using dom2 distinct_card[OF assms(2)] by simp
  finally have full: "Len (eviction c2) \<ge> capacity c2" using cap2 by (simp add: Len_def)
  have "knew \<notin> dom (items c2)" using dom2 assms(3) by metis
  then have none: "items c2 knew = None" by (simp add: domIff)
  note S = Set_evicts_back[OF c2 none ne2 full, of v' ttl' now]
  have it3: "items c3 = (items c2)(fst oldest := None,
      knew \<mapsto> \<lparr>addr = fresh c2, payload = \<lparr>key = knew, val = \<lparr>Value = v', ExpiryTime = now + ttl'\<rparr>\<rparr>\<rparr>)"
    using S assms(7) last2 by simp
  have neq: "knew \<noteq> fst oldest" using assms(1,3) by auto
  have "dom (items c3) = insert knew (dom (items c2) - {fst oldest})"
    unfolding it3 by auto
  also have "dom (items c2) - {fst oldest} = set (map fst rest)"
    using dom2 assms(1) old by auto
  finally have dom3: "dom (items c3) = insert knew (set (map fst rest))" .
  have gone: "items c3 (fst oldest) = None" unfolding it3 using neq by simp
  have kept: "\<exists>e. items c3 (fst x) = Some e \<and> value_of e = fst (snd x) \<and>
      expiry_of e = snd (snd (snd x)) + fst (snd (snd x))" if "x \<in> set rest" for x
  proof -
    have "fst x \<in> set (map fst rest)" using that by simp
    then have "fst x \<noteq> fst oldest" using old by metis
    have "fst x \<in> set (map fst ins)" using that assms(1) by simp
    then have "fst x \<noteq> knew" using assms(3) by metis
    note nn = \<open>fst x \<noteq> fst oldest\<close> \<open>fst x \<noteq> knew\<close>
    have "items c3 (fst x) = items ?c1 (fst x)" unfolding it3 using it2 nn by simp
    moreover have "x \<in> set ins" using that assms(1) by simp
    ultimately show ?thesis using vals1 by simp
  qed
  then have kept': "\<forall>(k, v, ttl, t)\<in>set rest.
            \<exists>e. items c3 k = Some e \<and> value_of e = v \<and> expiry_of e = t + ttl"
    by (auto simp: split_beta) 
  have rule: "eviction (evictLRU c) = butlast (eviction c) \<and>
            items (evictLRU c) = (items c)(key_of (last (eviction c)) := None) \<and>
            length (eviction (evictLRU c)) = length (eviction c) - 1"
    if "consistent c \<and> eviction c \<noteq> []" for c
    using that evictLRU_eviction[of c] by (simp add: evictLRU_def Back_def unlink_def)
  show ?thesis using dom2 dom3 gone kept' rule by blast
qed

theorem lru_evicts_the_unread_key_witness:
  "distinct (map fst [(''a'', ''1'', 3600, 0), (''b'', ''2'', 3600, 1), (''c'', ''3'', 3600, (2::int))]) \<and>
   ''d'' \<notin> set (map fst [(''a'', ''1'', 3600, 0), (''b'', ''2'', 3600, 1), (''c'', ''3'', 3600, (2::int))]) \<and>
   set (map fst [(''c'', 3), (''b'', (4::int))]) \<subseteq> set (map fst [(''b'', ''2'', 3600, 1), (''c'', ''3'', 3600, (2::int))]) \<and>
   dom (items (snd (Set ''d'' ''4'' 3600 5
     (run (get_calls [(''c'', 3), (''b'', 4)])
       (run (set_calls [(''a'', ''1'', 3600, 0), (''b'', ''2'', 3600, 1), (''c'', ''3'', 3600, 2)])
         (New 3)))))) = {''d'', ''b'', ''c''} \<and>
   items (snd (Set ''d'' ''4'' 3600 5
     (run (get_calls [(''c'', 3), (''b'', 4)])
       (run (set_calls [(''a'', ''1'', 3600, 0), (''b'', ''2'', 3600, 1), (''c'', ''3'', 3600, 2)])
         (New 3))))) ''a'' = None"
proof -
  let ?ins = "[(''a'', ''1'', 3600, 0), (''b'', ''2'', 3600, 1), (''c'', ''3'', 3600, (2::int))]"
  let ?rest = "[(''b'', ''2'', 3600, 1), (''c'', ''3'', 3600, (2::int))]"
  let ?gets = "[(''c'', 3), (''b'', (4::int))]"
  have h1: "?ins = (''a'', ''1'', 3600, 0) # ?rest" by simp
  have h2: "distinct (map fst ?ins)" by simp
  have h3: "''d'' \<notin> set (map fst ?ins)" by simp
  have h4: "set (map fst ?gets) \<subseteq> set (map fst ?rest)" by simp
  have h5: "\<forall>(k, v, ttl, t)\<in>set ?ins. \<forall>(k', t')\<in>set ?gets. t' \<le> t + ttl" by simp
  have C: "New (int (length ?ins)) = New 3" by simp
  show ?thesis
    using lru_evicts_the_unread_key[OF h1 h2 h3 h4 h5 refl refl, of "''4''" 3600 5] h2 h3 h4
    unfolding C by simp
qed

section \<open>\<^verbatim>\<open>Flush\<close> and the mutex\<close>

lemmas sys_eval = race_sys_def step_def Flush_prog_def Set_prog_def Get_prog_def
  Flush_items_def Flush_eviction_def

text \<open>
  C3 does not hold of \<^verbatim>\<open>Flush\<close>, which never takes \<^verbatim>\<open>c.mu\<close>. In \<open>race_sys\<close>: after the
  \<^verbatim>\<open>Set\<close> goroutine has taken the mutex, \<^verbatim>\<open>Flush\<close> still runs its first assignment, and the
  cache then has an empty index beside a recency list that holds \<open>a\<close> while the mutex is
  held by the \<^verbatim>\<open>Set\<close>. When the whole locked \<^verbatim>\<open>Set\<close> runs between the two assignments of
  \<^verbatim>\<open>Flush\<close>, both calls finish and leave the key \<open>b\<close> in the index with an empty recency
  list. A call that does lock (the \<^verbatim>\<open>Get\<close>) cannot step while the \<^verbatim>\<open>Set\<close> holds the mutex.
\<close>

theorem Flush_races_with_locked_calls:
  "(case exec [1, 0] race_sys of
      None \<Rightarrow> False
    | Some s \<Rightarrow> mu s = Some 1 \<and> dom (items (cache s)) = {} \<and>
        map key_of (eviction (cache s)) = [''a'']) \<and>
   (case exec [0, 1, 1, 1, 0] race_sys of
      None \<Rightarrow> False
    | Some s \<Rightarrow> threads s = [[], [], Get_prog ''a'' 2] \<and> mu s = None \<and>
        dom (items (cache s)) = {''b''} \<and> eviction (cache s) = [] \<and>
        card (dom (items (cache s))) \<noteq> length (eviction (cache s))) \<and>
   exec [1, 2] race_sys = None"
  by (simp add: sys_eval cache_eval)

end
